theory Spec2Isabelle
  imports Main "HOL-Library.Sublist"
begin

section \<open>Python strings and slices\<close>

text \<open>
  A Python \<open>str\<close> is a sequence of code points. The model uses \<open>string\<close>, one
  \<open>char\<close> per code point, so it covers the texts whose code points are below 256;
  \<open>len\<close> is \<open>length\<close>. Python's integers are \<open>int\<close>.
\<close>

definition newline :: char where
  "newline = CHR 0x0A"

text \<open>
  The code points below 256 for which \<open>str.isspace\<close> holds. The class \<open>\s\<close> of
  \<open>re\<close> on a \<open>str\<close> pattern and \<open>str.strip()\<close> use the same set.
\<close>

definition whitespace_chars :: "char list" where
  "whitespace_chars =
     [CHR 0x09, CHR 0x0A, CHR 0x0B, CHR 0x0C, CHR 0x0D, CHR 0x1C, CHR 0x1D, CHR 0x1E,
      CHR 0x1F, CHR 0x20, CHR 0x85, CHR 0xA0]"

definition is_space :: "char \<Rightarrow> bool" where
  "is_space c = (c \<in> set whitespace_chars)"

text \<open>\<open>s.strip()\<close>: leading and trailing whitespace removed.\<close>

definition strip :: "string \<Rightarrow> string" where
  "strip s = rev (dropWhile is_space (rev (dropWhile is_space s)))"

text \<open>
  \<open>xs[a:b]\<close> for any two integers: a negative index counts from the end, and both
  indices are clamped into \<open>0 .. len(xs)\<close>.
\<close>

definition py_index :: "nat \<Rightarrow> int \<Rightarrow> nat" where
  "py_index n i = (if i < 0 then nat (max 0 (i + int n)) else min n (nat i))"

definition py_slice :: "'a list \<Rightarrow> int \<Rightarrow> int \<Rightarrow> 'a list" where
  "py_slice xs a b = take (py_index (length xs) b - py_index (length xs) a)
                          (drop (py_index (length xs) a) xs)"

text \<open>\<open>xs[a:]\<close>.\<close>

definition py_slice_from :: "'a list \<Rightarrow> int \<Rightarrow> 'a list" where
  "py_slice_from xs a = drop (py_index (length xs) a) xs"

text \<open>\<open>sep.join(xs)\<close>.\<close>

fun join :: "string \<Rightarrow> string list \<Rightarrow> string" where
  "join sep [] = []"
| "join sep [x] = x"
| "join sep (x # y # ys) = x @ sep @ join sep (y # ys)"

section \<open>Fixed-window chunking (main.py and sitemap_chunks.py, chunk_text)\<close>

definition MAX_CHARS :: int where
  "MAX_CHARS = 2000"

definition OVERLAP :: int where
  "OVERLAP = 200"

text \<open>
  The \<open>while start < length\<close> loop of \<open>chunk_text\<close>, with the module globals
  \<open>MAX_CHARS\<close> and \<open>OVERLAP\<close> as the parameters \<open>max_chars\<close> and \<open>overlap\<close>.
  The loop need not end (it does not when \<open>overlap \<ge> max_chars\<close> on a long text), so
  not returning is the value \<open>None\<close>.
\<close>

partial_function (option) chunk_loop ::
    "int \<Rightarrow> int \<Rightarrow> string \<Rightarrow> int \<Rightarrow> string list \<Rightarrow> string list option" where
  "chunk_loop max_chars overlap txt start chunks =
     (if start < int (length txt) then
        (let end_pos = min (start + max_chars) (int (length txt));
             chunks' = chunks @ [py_slice txt start end_pos]
         in if end_pos = int (length txt) then Some chunks'
            else chunk_loop max_chars overlap txt (end_pos - overlap) chunks')
      else Some chunks)"

declare chunk_loop.simps [code]

definition chunk_text_with :: "int \<Rightarrow> int \<Rightarrow> string \<Rightarrow> string list option" where
  "chunk_text_with max_chars overlap txt = chunk_loop max_chars overlap txt 0 []"

definition chunk_text :: "string \<Rightarrow> string list option" where
  "chunk_text txt = chunk_text_with MAX_CHARS OVERLAP txt"

section \<open>Header sectioning (sitemap_chunks.py, chunk_by_header; main.py, chunk_markdown)\<close>

text \<open>
  The pattern \<open>^(# .+|## .+)$\<close> under \<open>re.MULTILINE\<close>: \<open>^\<close> matches at offset 0 and
  right after each newline, \<open>.\<close> matches every character but the newline, and \<open>$\<close>
  matches before a newline or at the end. So a match starts at the start of a line that
  begins with \<open># \<close> or \<open>## \<close> followed by at least one more character, and it
  covers that line.
\<close>

definition is_heading_line :: "string \<Rightarrow> bool" where
  "is_heading_line ln =
     ((prefix ''# '' ln \<and> 2 < length ln) \<or> (prefix ''## '' ln \<and> 3 < length ln))"

definition line_at :: "string \<Rightarrow> string" where
  "line_at s = takeWhile (\<lambda>c. c \<noteq> newline) s"

text \<open>
  \<open>[m.start() for m in header_pat.finditer(markdown)]\<close>: the scan keeps whether the
  current offset is the start of a line, and the offset itself.
\<close>

primrec header_scan :: "bool \<Rightarrow> nat \<Rightarrow> string \<Rightarrow> nat list" where
  "header_scan at_bol pos [] = []"
| "header_scan at_bol pos (c # cs) =
     (if at_bol \<and> is_heading_line (line_at (c # cs)) then [pos] else [])
     @ header_scan (c = newline) (Suc pos) cs"

definition header_starts :: "string \<Rightarrow> nat list" where
  "header_starts md = header_scan True 0 md"

text \<open>
  The loop \<open>for i in range(len(bounds)-1)\<close> over the consecutive pairs
  \<open>bounds[i], bounds[i+1]\<close>: each slice is stripped and kept when it is not empty.
\<close>

fun sections_between :: "string \<Rightarrow> nat list \<Rightarrow> string list" where
  "sections_between md (b1 # b2 # bs) =
     (let sec = strip (py_slice md (int b1) (int b2))
      in (if sec \<noteq> [] then [sec] else []) @ sections_between md (b2 # bs))"
| "sections_between md [b] = []"
| "sections_between md [] = []"

definition chunk_by_header :: "string \<Rightarrow> string list" where
  "chunk_by_header markdown =
     sections_between markdown (header_starts markdown @ [length markdown])"

text \<open>\<open>chunk_markdown\<close> of main.py has the same body.\<close>

definition chunk_markdown :: "string \<Rightarrow> string list" where
  "chunk_markdown md = sections_between md (header_starts md @ [length md])"

section \<open>Paragraph packing (sitemap_chunks.py, chunk_by_paragraphs)\<close>

text \<open>
  The pattern \<open>\n\s*\n\<close> at a newline: \<open>\s*\<close> is greedy and the newline is itself
  whitespace, so the pattern matches exactly when the whitespace run after the first
  newline holds another newline, and the match ends after the last newline of that run.
  \<open>sep_rest cs\<close> is the text left after the match, \<open>cs\<close> being the text after the
  first newline.
\<close>

definition sep_rest :: "string \<Rightarrow> string option" where
  "sep_rest cs =
     (let ws = takeWhile is_space cs
      in if newline \<in> set ws
         then Some (rev (takeWhile (\<lambda>c. c \<noteq> newline) (rev ws)) @ dropWhile is_space cs)
         else None)"

lemma sep_rest_length: "sep_rest cs = Some r \<Longrightarrow> length r \<le> length cs"
proof -
  assume a: "sep_rest cs = Some r"
  let ?ws = "takeWhile is_space cs"
  have r: "r = rev (takeWhile (\<lambda>c. c \<noteq> newline) (rev ?ws)) @ dropWhile is_space cs"
    using a by (simp add: sep_rest_def Let_def split: if_splits)
  have "length (takeWhile (\<lambda>c. c \<noteq> newline) (rev ?ws)) \<le> length ?ws"
    using length_takeWhile_le[of "\<lambda>c. c \<noteq> newline" "rev ?ws"] by simp
  moreover have "length ?ws + length (dropWhile is_space cs) = length cs"
    by (metis length_append takeWhile_dropWhile_id)
  ultimately show ?thesis using r by simp
qed

text \<open>
  \<open>re.split(r'\n\s*\n', s)\<close>: the text is cut at the leftmost matches, taken from
  left to right; \<open>cur\<close> is the piece read so far.
\<close>

function split_from :: "string \<Rightarrow> string \<Rightarrow> string list" where
  "split_from cur [] = [cur]"
| "split_from cur (c # cs) =
     (case (if c = newline then sep_rest cs else None) of
        Some r \<Rightarrow> cur # split_from [] r
      | None \<Rightarrow> split_from (cur @ [c]) cs)"
  by pat_completeness auto
termination
  by (relation "measure (\<lambda>(cur, s). length s)")
     (auto split: if_splits dest: sep_rest_length)

definition split_paragraphs :: "string \<Rightarrow> string list" where
  "split_paragraphs s = split_from [] s"

text \<open>The three locals of the packing loop.\<close>

record pack_state =
  chunks :: "string list"
  curr :: "string list"
  curr_len :: int

definition flush :: "string list \<Rightarrow> string" where
  "flush ps = strip (join [newline, newline] ps)"

text \<open>
  One turn of \<open>for p in paras\<close>. \<open>curr[-overlap_paras:]\<close> is a slice from the index
  \<open>-overlap_paras\<close>, which for \<open>overlap_paras = 0\<close> is the index 0.
\<close>

definition pack_step :: "int \<Rightarrow> int \<Rightarrow> pack_state \<Rightarrow> string \<Rightarrow> pack_state" where
  "pack_step max_chars overlap_paras st p =
     (let plen = int (length p) + 2;
          st1 = (if curr_len st + plen > max_chars \<and> curr st \<noteq> [] then
                   (let kept = py_slice_from (curr st) (- overlap_paras)
                    in \<lparr>chunks = chunks st @ [flush (curr st)],
                        curr = kept,
                        curr_len = (\<Sum>x\<leftarrow>kept. int (length x) + 2)\<rparr>)
                 else st)
      in \<lparr>chunks = chunks st1, curr = curr st1 @ [p], curr_len = curr_len st1 + plen\<rparr>)"

definition pack_loop :: "int \<Rightarrow> int \<Rightarrow> string list \<Rightarrow> pack_state" where
  "pack_loop max_chars overlap_paras paras =
     foldl (pack_step max_chars overlap_paras) \<lparr>chunks = [], curr = [], curr_len = 0\<rparr> paras"

definition chunk_by_paragraphs :: "string \<Rightarrow> int \<Rightarrow> int \<Rightarrow> string list" where
  "chunk_by_paragraphs sec max_chars overlap_paras =
     (let st = pack_loop max_chars overlap_paras (split_paragraphs (strip sec))
      in if curr st \<noteq> [] then chunks st @ [flush (curr st)] else chunks st)"

section \<open>Recursive sitemap resolution (sitemap_page_per_file_recursive.py)\<close>

subsection \<open>The parsed document\<close>

text \<open>
  An \<open>Element\<close> of \<open>xml.etree.ElementTree\<close>: its tag (the namespace, if any, in
  braces before the local name), its text (\<open>None\<close> or a string) and its children.
\<close>

datatype element = Element (tag: string) (etext: "string option") (children: "element list")

text \<open>\<open>elem.iter()\<close>: the element and its descendants, in document order.\<close>

fun iter :: "element \<Rightarrow> element list" where
  "iter (Element t x ks) = Element t x ks # concat (map iter ks)"

text \<open>
  The path step \<open>{*}name\<close> selects a tag that is \<open>name\<close> or ends with \<open>}name\<close>.
\<close>

definition tag_matches :: "string \<Rightarrow> string \<Rightarrow> bool" where
  "tag_matches name t = (t = name \<or> suffix (CHR ''}'' # name) t)"

text \<open>\<open>root.findall(".//{*}name")\<close>: the matching descendants, the root left out.\<close>

definition findall_any_ns :: "string \<Rightarrow> element \<Rightarrow> element list" where
  "findall_any_ns name root =
     filter (\<lambda>e. tag_matches name (tag e)) (concat (map iter (children root)))"

text \<open>\<open>e.find("{*}name")\<close>: the first matching child, or \<open>None\<close>.\<close>

definition find_any_ns :: "string \<Rightarrow> element \<Rightarrow> element option" where
  "find_any_ns name e = List.find (\<lambda>k. tag_matches name (tag k)) (children e)"

text \<open>\<open>loc.text.strip()\<close> under the guard \<open>if loc.text\<close>.\<close>

definition text_url :: "element \<Rightarrow> string option" where
  "text_url loc = (case etext loc of
       None \<Rightarrow> None
     | Some t \<Rightarrow> if t = [] then None else Some (strip t))"

text \<open>
  \<open>loc = e.find("{*}loc")\<close> and then \<open>loc.text.strip()\<close> under the guard
  \<open>if loc is not None and loc.text\<close>.
\<close>

definition loc_url :: "element \<Rightarrow> string option" where
  "loc_url e = (case find_any_ns ''loc'' e of None \<Rightarrow> None | Some loc \<Rightarrow> text_url loc)"

text \<open>\<open>s.lower()\<close> on code points below 256.\<close>

definition lower_char :: "char \<Rightarrow> char" where
  "lower_char c =
     (let n = (of_char c :: nat)
      in if (65 \<le> n \<and> n \<le> 90) \<or> (192 \<le> n \<and> n \<le> 222 \<and> n \<noteq> 215)
         then char_of (n + 32) else c)"

definition lower :: "string \<Rightarrow> string" where
  "lower s = map lower_char s"

text \<open>\<open>root.tag.split("}")[-1].lower()\<close>.\<close>

definition root_kind :: "element \<Rightarrow> string" where
  "root_kind root = lower (rev (takeWhile (\<lambda>c. c \<noteq> CHR ''}'') (rev (tag root))))"

subsection \<open>The regex fallback\<close>

text \<open>
  \<open>re.findall(r"<loc>\s*(.*?)\s*</loc>", text)\<close>. After \<open><loc>\<close> and the whole
  whitespace run behind it, \<open>loc_body\<close> grows the lazy group one character at a time
  (never over a newline) until \<open>\s*</loc>\<close> matches; it returns the group and the
  text after the match. Giving the first \<open>\s*\<close> less than the whole run finds no
  match that this order misses: a group that starts inside the run meets the same
  tests.
\<close>

fun loc_body :: "string \<Rightarrow> string \<Rightarrow> (string \<times> string) option" where
  "loc_body grp [] = None"
| "loc_body grp (c # cs) =
     (let r = dropWhile is_space (c # cs)
      in if prefix ''</loc>'' r then Some (grp, drop 6 r)
         else if c = newline then None
         else loc_body (grp @ [c]) cs)"

definition loc_match :: "string \<Rightarrow> (string \<times> string) option" where
  "loc_match s =
     (if prefix ''<loc>'' s then loc_body [] (dropWhile is_space (drop 5 s)) else None)"

lemma loc_body_length: "loc_body grp s = Some (g, r) \<Longrightarrow> length r \<le> length s"
proof (induction s arbitrary: grp)
  case Nil
  then show ?case by simp
next
  case (Cons c cs)
  show ?case
  proof (cases "prefix ''</loc>'' (dropWhile is_space (c # cs))")
    case True
    then have "r = drop 6 (dropWhile is_space (c # cs))"
      using Cons.prems by (simp add: Let_def)
    then have "length r \<le> length (dropWhile is_space (c # cs))" by simp
    also have "\<dots> \<le> length (c # cs)" by (rule length_dropWhile_le)
    finally show ?thesis .
  next
    case False
    then have "loc_body (grp @ [c]) cs = Some (g, r)"
      using Cons.prems by (simp add: Let_def split: if_splits)
    from Cons.IH[OF this] show ?thesis by simp
  qed
qed

lemma loc_match_length: "loc_match (c # cs) = Some (g, r) \<Longrightarrow> length r \<le> length cs"
proof -
  assume a: "loc_match (c # cs) = Some (g, r)"
  then have b: "loc_body [] (dropWhile is_space (drop 5 (c # cs))) = Some (g, r)"
    by (simp add: loc_match_def split: if_splits)
  have "length r \<le> length (dropWhile is_space (drop 5 (c # cs)))"
    by (rule loc_body_length[OF b])
  also have "\<dots> \<le> length (drop 5 (c # cs))" by (rule length_dropWhile_le)
  also have "\<dots> \<le> length cs" by simp
  finally show ?thesis .
qed

function findall_loc :: "string \<Rightarrow> string list" where
  "findall_loc [] = []"
| "findall_loc (c # cs) =
     (case loc_match (c # cs) of
        Some (grp, r) \<Rightarrow> grp # findall_loc r
      | None \<Rightarrow> findall_loc cs)"
  by pat_completeness auto
termination
  by (relation "measure length") (auto dest: loc_match_length)

subsection \<open>The resolver\<close>

text \<open>
  What \<open>session.get(url, timeout=10)\<close>, \<open>raise_for_status()\<close> and
  \<open>ET.fromstring(resp.content)\<close> give for a URL:
  \<^item> \<open>Failed\<close>: the request raises (a timeout, a connection error, an error status,
    or a URL that \<open>requests\<close> rejects before it sends anything, such as a relative
    one);
  \<^item> \<open>Malformed\<close>: the parser raises \<open>ET.ParseError\<close>; the string is
    \<open>data.decode("utf-8", errors="ignore")\<close>;
  \<^item> \<open>Unparsable\<close>: the parser raises another exception (\<open>LookupError\<close> on an
    unknown encoding in the XML declaration, \<open>ValueError\<close> on a multi-byte one),
    which \<open>except ET.ParseError\<close> does not catch;
  \<^item> \<open>Document\<close>: the body parses to a root element.
\<close>

datatype response = Failed | Malformed string | Unparsable | Document element

type_synonym web = "string \<Rightarrow> response"

text \<open>
  The exceptions that leave \<open>fetch_sitemap_urls\<close>: one of the request, or one of
  the parser that is not \<open>ET.ParseError\<close>.
\<close>

datatype error = FetchError | ParserError

text \<open>The exception a response makes the call raise, if any.\<close>

definition error_of :: "response \<Rightarrow> error option" where
  "error_of r = (case r of
       Failed \<Rightarrow> Some FetchError
     | Unparsable \<Rightarrow> Some ParserError
     | Malformed t \<Rightarrow> None
     | Document root \<Rightarrow> None)"

text \<open>
  The set \<open>visited\<close> that the recursive calls share, and the requests issued so far
  in their order (a trace the code does not keep: every \<open>session.get\<close> is logged).
\<close>

record resolver_state =
  visited :: "string set"
  fetched :: "string list"

definition mark_visited :: "string \<Rightarrow> resolver_state \<Rightarrow> resolver_state" where
  "mark_visited u st = \<lparr>visited = insert u (visited st), fetched = fetched st @ [u]\<rparr>"

text \<open>
  \<open>fetch_sitemap_urls(sitemap_url, visited)\<close>. The first argument bounds the depth of
  the recursion (\<open>None\<close>: the bound is used up); an exception is the result \<open>Inl\<close>,
  which every caller passes on. \<open>index_loop\<close> is the loop
  \<open>for sm in root.findall(".//{*}sitemap")\<close> with the list \<open>urls\<close> built so far.
\<close>

fun fetch_sitemap_urls ::
    "nat \<Rightarrow> web \<Rightarrow> string \<Rightarrow> resolver_state \<Rightarrow> ((error + string list) \<times> resolver_state) option"
and index_loop ::
    "nat \<Rightarrow> web \<Rightarrow> element list \<Rightarrow> string list \<Rightarrow> resolver_state
       \<Rightarrow> ((error + string list) \<times> resolver_state) option" where
  "fetch_sitemap_urls 0 w sitemap_url st =
     (if sitemap_url \<in> visited st then Some (Inr [], st) else None)"
| "fetch_sitemap_urls (Suc n) w sitemap_url st =
     (if sitemap_url \<in> visited st then Some (Inr [], st)
      else
        (let st1 = mark_visited sitemap_url st
         in case w sitemap_url of
              Failed \<Rightarrow> Some (Inl FetchError, st1)
            | Malformed txt \<Rightarrow> Some (Inr (findall_loc txt), st1)
            | Unparsable \<Rightarrow> Some (Inl ParserError, st1)
            | Document root \<Rightarrow>
                if root_kind root = ''sitemapindex'' then
                  index_loop n w (findall_any_ns ''sitemap'' root) [] st1
                else if root_kind root = ''urlset'' then
                  Some (Inr (List.map_filter loc_url (findall_any_ns ''url'' root)), st1)
                else
                  Some (Inr (List.map_filter text_url (findall_any_ns ''loc'' root)), st1)))"
| "index_loop n w [] urls st = Some (Inr urls, st)"
| "index_loop n w (sm # sms) urls st =
     (case loc_url sm of
        None \<Rightarrow> index_loop n w sms urls st
      | Some child \<Rightarrow>
          (case fetch_sitemap_urls n w child st of
             None \<Rightarrow> None
           | Some (Inl e, st') \<Rightarrow> Some (Inl e, st')
           | Some (Inr us, st') \<Rightarrow> index_loop n w sms (urls @ us) st'))"

text \<open>The call \<open>fetch_sitemap_urls(URL)\<close>: \<open>visited\<close> is \<open>None\<close>, so a new set.\<close>

definition fetch_sitemap_urls_default ::
    "nat \<Rightarrow> web \<Rightarrow> string \<Rightarrow> ((error + string list) \<times> resolver_state) option" where
  "fetch_sitemap_urls_default fuel w sitemap_url =
     fetch_sitemap_urls fuel w sitemap_url \<lparr>visited = {}, fetched = []\<rparr>"

text \<open>
  The sitemap graph: the sitemaps a URL's document names when it is a sitemap index,
  and the page entries a URL's document contributes otherwise.
\<close>

definition sitemap_children :: "web \<Rightarrow> string \<Rightarrow> string list" where
  "sitemap_children w u = (case w u of
       Document root \<Rightarrow>
         if root_kind root = ''sitemapindex''
         then List.map_filter loc_url (findall_any_ns ''sitemap'' root) else []
     | _ \<Rightarrow> [])"

definition page_entries :: "web \<Rightarrow> string \<Rightarrow> string list" where
  "page_entries w u = (case w u of
       Failed \<Rightarrow> []
     | Malformed txt \<Rightarrow> findall_loc txt
     | Unparsable \<Rightarrow> []
     | Document root \<Rightarrow>
         if root_kind root = ''sitemapindex'' then []
         else if root_kind root = ''urlset'' then
           List.map_filter loc_url (findall_any_ns ''url'' root)
         else List.map_filter text_url (findall_any_ns ''loc'' root))"

section \<open>Page fetching (sitemap_page_per_file_recursive.py, fetch_markdown)\<close>

text \<open>
  The names bound in the module's global scope when \<open>fetch_markdown\<close> runs: its
  imports (lines 1 to 11), its constants and its functions.
\<close>

definition module_names :: "string list" where
  "module_names =
     [''os'', ''json'', ''re'', ''sys'', ''subprocess'', ''asyncio'', ''requests'',
      ''html2text'', ''ET'', ''urlparse'', ''AsyncWebCrawler'', ''BrowserConfig'',
      ''CrawlerRunConfig'', ''URL'', ''OUTPUT_DIR'', ''MODEL'', ''REQUEST_HEADERS'',
      ''fetch_sitemap_urls'', ''ensure_model'', ''summarize_chunk'', ''fetch_markdown'',
      ''main'']"

text \<open>
  What a statement can raise: \<open>NameError\<close>, another subclass of \<open>Exception\<close>, or an
  exception outside \<open>Exception\<close> (\<open>KeyboardInterrupt\<close>, a cancellation), which
  \<open>except Exception\<close> does not catch.
\<close>

datatype exn = NameError | OtherException | NonException

definition is_Exception :: "exn \<Rightarrow> bool" where
  "is_Exception e = (e \<noteq> NonException)"

text \<open>The result object of \<open>crawler.arun\<close>.\<close>

record crawl_result =
  success :: bool
  markdown :: "string option"

text \<open>
  The outside world of one call: what \<open>crawler.arun(url)\<close> would do, what
  \<open>requests.get\<close> with \<open>raise_for_status\<close> does (\<open>resp.text\<close> on success), and
  the conversion \<open>conv.handle\<close>.
\<close>

record page_env =
  crawl :: "string \<Rightarrow> exn + crawl_result"
  http_get :: "string \<Rightarrow> exn + string"
  html2text :: "string \<Rightarrow> string"

text \<open>Reading a global name that is not bound raises \<open>NameError\<close>.\<close>

definition lookup_global :: "string \<Rightarrow> exn + unit" where
  "lookup_global name = (if name \<in> set module_names then Inr () else Inl NameError)"

text \<open>
  The body of the \<open>try\<close> up to the assignment of \<open>res\<close>: \<open>contextlib\<close> is read
  before the crawler is entered. The two configuration objects built before the
  \<open>try\<close> and \<open>open(os.devnull, "w")\<close> are taken to succeed.
\<close>

definition dynamic_scrape :: "page_env \<Rightarrow> string \<Rightarrow> exn + crawl_result" where
  "dynamic_scrape env url = (case lookup_global ''contextlib'' of
       Inl e \<Rightarrow> Inl e
     | Inr _ \<Rightarrow> crawl env url)"

text \<open>\<open>res.success and res.markdown\<close>.\<close>

definition usable :: "crawl_result \<Rightarrow> bool" where
  "usable res = (success res \<and> markdown res \<noteq> None \<and> markdown res \<noteq> Some [])"

definition static_fallback :: "page_env \<Rightarrow> string \<Rightarrow> exn + string" where
  "static_fallback env url = (case http_get env url of
       Inl e \<Rightarrow> Inl e
     | Inr html \<Rightarrow> Inr (html2text env html))"

definition fetch_markdown :: "page_env \<Rightarrow> string \<Rightarrow> exn + string" where
  "fetch_markdown env url = (case dynamic_scrape env url of
       Inr res \<Rightarrow> (case markdown res of
                    Some md \<Rightarrow> if usable res then Inr md else static_fallback env url
                  | None \<Rightarrow> static_fallback env url)
     | Inl e \<Rightarrow> if is_Exception e then static_fallback env url else Inl e)"

section \<open>Example inputs\<close>

text \<open>An example world for the page fetcher.\<close>

definition demo_env :: page_env where
  "demo_env =
     \<lparr>crawl = (\<lambda>u. Inl OtherException),
      http_get = (\<lambda>u. if u = ''https://a/x'' then Inr ''<p>hi</p>'' else Inl OtherException),
      html2text = (\<lambda>h. filter (\<lambda>c. c \<noteq> CHR ''<'') h)\<rparr>"

text \<open>Sitemap documents in the namespace of sitemaps.org, as the parser returns them.\<close>

definition sitemap_ns :: string where
  "sitemap_ns = ''{http://www.sitemaps.org/schemas/sitemap/0.9}''"

definition entry :: "string \<Rightarrow> string \<Rightarrow> element" where
  "entry kind u =
     Element (sitemap_ns @ kind) None [Element (sitemap_ns @ ''loc'') (Some u) []]"

definition urlset_doc :: "string list \<Rightarrow> response" where
  "urlset_doc us = Document (Element (sitemap_ns @ ''urlset'') None (map (entry ''url'') us))"

definition index_doc :: "string list \<Rightarrow> response" where
  "index_doc us =
     Document (Element (sitemap_ns @ ''sitemapindex'') None (map (entry ''sitemap'') us))"

text \<open>
  Two sitemap indexes that name each other (and the first names itself), and one URL
  set below them.
\<close>

definition cyclic_web :: web where
  "cyclic_web u =
     (if u = ''/index'' then index_doc [''/a'', ''/index'', ''/b'']
      else if u = ''/a'' then index_doc [''/index'', ''/b'']
      else if u = ''/b'' then urlset_doc [''/p1'', ''/p2'']
      else Failed)"

text \<open>A URL set that lists one page twice.\<close>

definition dup_web :: web where
  "dup_web u = (if u = ''/sitemap.xml'' then urlset_doc [''https://a/x'', ''https://a/x''] else Failed)"




section \<open>The resolver's postcondition\<close>

text \<open>
  What a returned call has done, from the state \<open>st\<close> and the list \<open>urls0\<close> it
  started with: it has issued the requests \<open>new\<close>, each once and none for a URL
  visited before; on success the result is \<open>urls0\<close> and then the page entries of the
  documents requested, in the order of the requests; an error is the one that the
  response to one of the requests raises.
\<close>

definition run_ok ::
    "web \<Rightarrow> resolver_state \<Rightarrow> string list \<Rightarrow> (error + string list) \<Rightarrow> resolver_state \<Rightarrow> bool" where
  "run_ok w st urls0 r st' =
     (\<exists>new. fetched st' = fetched st @ new \<and> visited st' = visited st \<union> set new \<and>
            distinct new \<and> set new \<inter> visited st = {} \<and>
            (case r of
               Inr out \<Rightarrow> out = urls0 @ concat (map (page_entries w) new)
             | Inl e \<Rightarrow> \<exists>v \<in> set new. error_of (w v) = Some e))"

section \<open>Fixed-window chunking: termination and windows\<close>

lemma chunk_loop_windows:
  assumes "0 < m" "0 \<le> ov" "ov < m" "0 \<le> start"
  shows "\<exists>ws. chunk_loop m ov txt start acc = Some (acc @ ws) \<and>
           (\<forall>i < length ws. ws ! i =
               py_slice txt (start + int i * (m - ov))
                            (min (start + int i * (m - ov) + m) (int (length txt)))) \<and>
           (\<forall>i < length ws. start + int i * (m - ov) < int (length txt)) \<and>
           (start < int (length txt) \<longrightarrow>
               ws \<noteq> [] \<and> int (length txt) \<le> start + int (length ws - 1) * (m - ov) + m)"
  using assms(4)
proof (induction "nat (int (length txt) - start)" arbitrary: start acc rule: less_induct)
  case less
  show ?case
  proof (cases "start < int (length txt)")
    case False
    then show ?thesis by (subst chunk_loop.simps) simp
  next
    case True
    let ?e = "min (start + m) (int (length txt))"
    show ?thesis
    proof (cases "?e = int (length txt)")
      case e: True
      have "chunk_loop m ov txt start acc = Some (acc @ [py_slice txt start ?e])"
        using True e by (subst chunk_loop.simps) (simp add: Let_def)
      moreover have "int (length txt) \<le> start + m" using e by simp
      ultimately show ?thesis using True
        by (intro exI[of _ "[py_slice txt start ?e]"]) simp
    next
      case e: False
      then have lt: "start + m < int (length txt)" by simp
      let ?s = "start + m - ov"
      have s: "0 \<le> ?s" "?s < int (length txt)" "start < ?s"
        using assms less.prems lt by auto
      have dec: "nat (int (length txt) - ?s) < nat (int (length txt) - start)"
        using s by simp
      from less.hyps[OF dec s(1), of "acc @ [py_slice txt start ?e]"]
      obtain ws where ws: "chunk_loop m ov txt ?s (acc @ [py_slice txt start ?e]) = Some ((acc @ [py_slice txt start ?e]) @ ws)"
        and w1: "\<forall>i < length ws. ws ! i =
               py_slice txt (?s + int i * (m - ov))
                            (min (?s + int i * (m - ov) + m) (int (length txt)))"
        and w2: "\<forall>i < length ws. ?s + int i * (m - ov) < int (length txt)"
        and w3: "ws \<noteq> []" "int (length txt) \<le> ?s + int (length ws - 1) * (m - ov) + m"
        using s(2) by blast
      have eq: "chunk_loop m ov txt start acc = Some (acc @ (py_slice txt start ?e # ws))"
        using True e lt ws by (subst chunk_loop.simps) (simp add: Let_def min_def)
      have shift: "?s + int i * (m - ov) = start + int (Suc i) * (m - ov)" for i
        by (simp add: algebra_simps)
      have a1: "\<forall>i < length (py_slice txt start ?e # ws). (py_slice txt start ?e # ws) ! i =
               py_slice txt (start + int i * (m - ov))
                            (min (start + int i * (m - ov) + m) (int (length txt)))"
      proof (intro allI impI)
        fix i assume "i < length (py_slice txt start ?e # ws)"
        then show "(py_slice txt start ?e # ws) ! i =
               py_slice txt (start + int i * (m - ov))
                            (min (start + int i * (m - ov) + m) (int (length txt)))"
          using w1 by (cases i) (simp_all add: shift del: of_nat_Suc)
      qed
      have a2: "\<forall>i < length (py_slice txt start ?e # ws). start + int i * (m - ov) < int (length txt)"
      proof (intro allI impI)
        fix i assume "i < length (py_slice txt start ?e # ws)"
        then show "start + int i * (m - ov) < int (length txt)"
          using w2 True by (cases i) (simp_all add: shift del: of_nat_Suc)
      qed
      have a3: "int (length txt) \<le> start + int (length (py_slice txt start ?e # ws) - 1) * (m - ov) + m"
      proof -
        obtain k where k: "length ws = Suc k" using w3(1) by (cases ws) auto
        show ?thesis using w3(2) shift[of k] k by (simp del: of_nat_Suc)
      qed
      show ?thesis using eq a1 a2 a3 by blast
    qed
  qed
qed


lemma py_slice_to_end:
  "0 \<le> a \<Longrightarrow> int (length xs) \<le> b \<Longrightarrow> py_slice xs a b = drop (nat a) xs"
  unfolding py_slice_def py_index_def by (auto simp: min_def)

text \<open>With the constants of the two modules the loop returns on every text.\<close>

lemma chunk_text_returns: "\<exists>cs. chunk_text txt = Some cs"
proof -
  have "\<exists>ws. chunk_loop MAX_CHARS OVERLAP txt 0 [] = Some ([] @ ws)"
    using chunk_loop_windows[of MAX_CHARS OVERLAP 0 "txt" "[]"]
    unfolding MAX_CHARS_def OVERLAP_def by auto
  then show ?thesis by (simp add: chunk_text_def chunk_text_with_def)
qed

text \<open>
  Claim C8. When \<open>0 \<le> overlap < max_chars\<close>, \<open>chunk_text\<close> returns on every text.
  Its chunk number \<open>i\<close> is the window of the text that starts at
  \<open>i * (max_chars - overlap)\<close> and is \<open>max_chars\<close> long (cut at the end of the text),
  so each start is the previous window's end minus the overlap; every window starts
  inside the text, and the last chunk runs to the end of the text.
\<close>

theorem chunk_text_terminates:
  assumes "0 < max_chars" and "0 \<le> overlap" and "overlap < max_chars"
  shows "\<exists>cs. chunk_text_with max_chars overlap txt = Some cs \<and>
           (\<forall>i < length cs. cs ! i =
               py_slice txt (int i * (max_chars - overlap))
                            (min (int i * (max_chars - overlap) + max_chars) (int (length txt)))) \<and>
           (\<forall>i < length cs. int i * (max_chars - overlap) < int (length txt)) \<and>
           (txt \<noteq> [] \<longrightarrow>
               cs \<noteq> [] \<and>
               int (length txt) \<le> int (length cs - 1) * (max_chars - overlap) + max_chars \<and>
               last cs = drop (nat (int (length cs - 1) * (max_chars - overlap))) txt)"
proof -
  from chunk_loop_windows[OF assms, of 0 "txt" "[]"]
  obtain ws where ws: "chunk_loop max_chars overlap txt 0 [] = Some ws"
    and w1: "\<forall>i < length ws. ws ! i =
               py_slice txt (int i * (max_chars - overlap))
                            (min (int i * (max_chars - overlap) + max_chars) (int (length txt)))"
    and w2: "\<forall>i < length ws. int i * (max_chars - overlap) < int (length txt)"
    and w3: "0 < int (length txt) \<longrightarrow>
               ws \<noteq> [] \<and> int (length txt) \<le> int (length ws - 1) * (max_chars - overlap) + max_chars"
    by auto
  have w4: "last ws = drop (nat (int (length ws - 1) * (max_chars - overlap))) txt"
    if ne: "txt \<noteq> []"
  proof -
    let ?k = "length ws - 1"
    let ?s = "int ?k * (max_chars - overlap)"
    have nz: "ws \<noteq> []" and le: "int (length txt) \<le> ?s + max_chars"
      using w3 ne by auto
    then have "last ws = ws ! ?k" by (simp add: last_conv_nth)
    also have "\<dots> = py_slice txt ?s (min (?s + max_chars) (int (length txt)))"
      using w1 nz by simp
    also have "\<dots> = py_slice txt ?s (int (length txt))"
      using le by (simp add: min_def)
    also have "\<dots> = drop (nat ?s) txt"
      using assms by (intro py_slice_to_end) auto
    finally show ?thesis .
  qed
  show ?thesis
    using ws w1 w2 w3 w4 unfolding chunk_text_with_def by auto
qed

theorem chunk_text_terminates_witness:
  "(0::int) < 5 \<and> (0::int) \<le> 2 \<and> (2::int) < 5 \<and>
   chunk_text_with 5 2 ''abcdefghijkl'' = Some [''abcde'', ''defgh'', ''ghijk'', ''jkl'']"
proof -
  have h: "(0::int) < 5" "(0::int) \<le> 2" "(2::int) < 5" by simp_all
  from chunk_text_terminates[OF h, of "''abcdefghijkl''"]
  obtain cs where "chunk_text_with 5 2 ''abcdefghijkl'' = Some cs" by blast
  moreover have "chunk_text_with 5 2 ''abcdefghijkl'' = Some [''abcde'', ''defgh'', ''ghijk'', ''jkl'']"
    by code_simp
  ultimately show ?thesis by simp
qed

section \<open>Page fetching: the dynamic branch and the static fallback\<close>

lemma dynamic_scrape_NameError: "dynamic_scrape env url = Inl NameError"
  by (simp add: dynamic_scrape_def lookup_global_def module_names_def)

lemma fetch_markdown_static: "fetch_markdown env url = static_fallback env url"
  by (simp add: fetch_markdown_def dynamic_scrape_NameError is_Exception_def)

text \<open>
  Claim C6. If the dynamic branch raises, or gives a result that is unsuccessful or
  empty, and the static request succeeds, \<open>fetch_markdown\<close> returns the conversion of
  the static response, and no error.
\<close>

theorem fetch_markdown_falls_back:
  assumes "(\<exists>e. dynamic_scrape env url = Inl e) \<or>
           (\<exists>res. dynamic_scrape env url = Inr res \<and> \<not> usable res)"
    and "http_get env url = Inr html"
  shows "fetch_markdown env url = Inr (html2text env html)"
  using assms(2) by (simp add: fetch_markdown_static static_fallback_def)

theorem fetch_markdown_falls_back_witness:
  "dynamic_scrape demo_env ''https://a/x'' = Inl NameError \<and>
   http_get demo_env ''https://a/x'' = Inr ''<p>hi</p>'' \<and>
   fetch_markdown demo_env ''https://a/x'' = Inr ''p>hi/p>''"
proof -
  have d: "dynamic_scrape demo_env ''https://a/x'' = Inl NameError"
    by (rule dynamic_scrape_NameError)
  have h: "http_get demo_env ''https://a/x'' = Inr ''<p>hi</p>''"
    by (simp add: demo_env_def)
  have "fetch_markdown demo_env ''https://a/x'' = Inr (html2text demo_env ''<p>hi</p>'')"
    using d h by (intro fetch_markdown_falls_back) auto
  then show ?thesis using d h by (simp add: demo_env_def)
qed

text \<open>
  Claim C9. \<open>contextlib\<close> is not bound in the module, so the dynamic branch raises
  \<open>NameError\<close> for every URL, and \<open>fetch_markdown\<close> is the static path: the
  conversion of the response when the request succeeds, the request's error when it
  fails.
\<close>

theorem fetch_markdown_always_static:
  "dynamic_scrape env url = Inl NameError \<and>
   fetch_markdown env url =
     (case http_get env url of Inl e \<Rightarrow> Inl e | Inr html \<Rightarrow> Inr (html2text env html))"
  by (simp add: dynamic_scrape_NameError fetch_markdown_static static_fallback_def)

section \<open>Paragraph packing: what a flush carries over\<close>

lemma py_index_neg: "0 < k \<Longrightarrow> py_index n (- k) = n - nat k"
  unfolding py_index_def by (simp add: max_def) linarith

text \<open>
  At a flush the accumulator becomes a chunk. For \<open>k > 0\<close> the next accumulator is the
  last \<open>k\<close> paragraphs (all of them when there are fewer) and then the new paragraph;
  for \<open>k = 0\<close> it is the whole old accumulator and then the new paragraph.
\<close>

lemma pack_step_flush:
  assumes "curr_len st + (int (length p) + 2) > max_chars" "curr st \<noteq> []"
  shows "chunks (pack_step max_chars k st p) = chunks st @ [flush (curr st)]"
    and "0 < k \<Longrightarrow> curr (pack_step max_chars k st p) = drop (length (curr st) - nat k) (curr st) @ [p]"
    and "k = 0 \<Longrightarrow> curr (pack_step max_chars k st p) = curr st @ [p]"
  using assms
  by (auto simp: pack_step_def Let_def py_slice_from_def py_index_neg) (simp add: py_index_def)

lemma pack_step_no_flush:
  assumes "\<not> (curr_len st + (int (length p) + 2) > max_chars \<and> curr st \<noteq> [])"
  shows "chunks (pack_step max_chars k st p) = chunks st"
    and "curr (pack_step max_chars k st p) = curr st @ [p]"
  using assms by (auto simp: pack_step_def Let_def)

text \<open>
  Claim C1 (the code breaks it). Both paragraphs of the section are 8 characters long
  and \<open>max_chars\<close> is 10, yet the second chunk holds both paragraphs and is 18
  characters long: after a flush the carried-over paragraph and the new one are joined
  without a second test against \<open>max_chars\<close>.
\<close>

theorem chunk_by_paragraphs_exceeds_max_chars:
  "split_paragraphs (strip ''aaaaaaaa\<newline>\<newline>bbbbbbbb'') = [''aaaaaaaa'', ''bbbbbbbb''] \<and>
   int (length ''aaaaaaaa'') \<le> 10 \<and> int (length ''bbbbbbbb'') \<le> 10 \<and>
   chunk_by_paragraphs ''aaaaaaaa\<newline>\<newline>bbbbbbbb'' 10 1 =
     [''aaaaaaaa'', ''aaaaaaaa\<newline>\<newline>bbbbbbbb''] \<and>
   split_paragraphs ''aaaaaaaa\<newline>\<newline>bbbbbbbb'' = [''aaaaaaaa'', ''bbbbbbbb''] \<and>
   10 < int (length ''aaaaaaaa\<newline>\<newline>bbbbbbbb'')"
  by code_simp

text \<open>
  Claim C3 (the code breaks it at \<open>k = 0\<close>). With \<open>overlap_paras = 0\<close> the slice
  \<open>curr[-0:]\<close> is the whole accumulator, so a flush carries every paragraph over: the
  second chunk repeats the first paragraph.
\<close>

theorem chunk_by_paragraphs_zero_overlap_carries_all:
  "pack_step 6 0 \<lparr>chunks = [], curr = [''aaaa''], curr_len = 6\<rparr> ''bbbb'' =
     \<lparr>chunks = [''aaaa''], curr = [''aaaa'', ''bbbb''], curr_len = 12\<rparr> \<and>
   chunk_by_paragraphs ''aaaa\<newline>\<newline>bbbb'' 6 0 = [''aaaa'', ''aaaa\<newline>\<newline>bbbb'']"
  by code_simp

section \<open>Header sectioning: what the bounds leave out\<close>

text \<open>
  Claim C2 (the code breaks it). Without a heading match the list of bounds is the
  single bound \<open>len(markdown)\<close>, the loop over pairs of bounds does not run, and no
  section is returned, whatever the document holds.
\<close>

theorem chunk_by_header_no_heading:
  "header_starts md = [] \<Longrightarrow> chunk_by_header md = []"
  by (simp add: chunk_by_header_def)

theorem chunk_by_header_no_heading_witness:
  "header_starts ''hello world'' = [] \<and> strip ''hello world'' = ''hello world'' \<and>
   chunk_by_header ''hello world'' = []"
proof -
  have h: "header_starts ''hello world'' = []" by code_simp
  have s: "strip ''hello world'' = ''hello world''" by code_simp
  show ?thesis using h s chunk_by_header_no_heading[OF h] by simp
qed


lemma chunk_markdown_eq: "chunk_markdown md = chunk_by_header md"
  by (simp add: chunk_markdown_def chunk_by_header_def)

lemma header_scan_shift:
  "header_scan f (p + k) s = map (\<lambda>x. x + k) (header_scan f p s)"
proof (induction s arbitrary: f p)
  case Nil
  then show ?case by simp
next
  case (Cons c cs)
  have "header_scan (c = newline) (Suc p + k) cs = map (\<lambda>x. x + k) (header_scan (c = newline) (Suc p) cs)"
    by (rule Cons.IH)
  then show ?case by simp
qed

lemma header_scan_bounds:
  "x \<in> set (header_scan f p s) \<Longrightarrow> p \<le> x \<and> x < p + length s"
proof (induction s arbitrary: f p)
  case Nil
  then show ?case by simp
next
  case (Cons c cs)
  from Cons.prems have "x = p \<or> x \<in> set (header_scan (c = newline) (Suc p) cs)"
    by (auto split: if_splits)
  then show ?case
  proof
    assume "x = p" then show ?thesis by simp
  next
    assume "x \<in> set (header_scan (c = newline) (Suc p) cs)"
    from Cons.IH[OF this] show ?thesis by simp
  qed
qed

lemma header_scan_drop_to_first:
  "header_scan f p s = b # bs \<Longrightarrow> header_scan True b (drop (b - p) s) = b # bs"
proof (induction s arbitrary: f p)
  case Nil
  then show ?case by simp
next
  case (Cons c cs)
  show ?case
  proof (cases "f \<and> is_heading_line (line_at (c # cs))")
    case True
    then have "b = p" using Cons.prems by simp
    then show ?thesis using Cons.prems True by simp
  next
    case False
    then have rec: "header_scan (c = newline) (Suc p) cs = b # bs"
      using Cons.prems by auto
    have "b \<in> set (header_scan (c = newline) (Suc p) cs)" using rec by simp
    then have "Suc p \<le> b" using header_scan_bounds by blast
    then have "drop (b - p) (c # cs) = drop (b - Suc p) cs"
      by (simp add: Suc_diff_le drop_Cons')
    then show ?thesis using Cons.IH[OF rec] by simp
  qed
qed

lemma header_starts_drop:
  assumes "header_starts md = b # bs"
  shows "header_starts (drop b md) = map (\<lambda>x. x - b) (b # bs)"
    and "\<forall>x \<in> set (b # bs). b \<le> x \<and> x < length md"
proof -
  have d: "header_scan True b (drop b md) = b # bs"
    using header_scan_drop_to_first[of True 0 md b bs] assms
    by (simp add: header_starts_def)
  have "header_scan True (0 + b) (drop b md) = map (\<lambda>x. x + b) (header_scan True 0 (drop b md))"
    by (rule header_scan_shift)
  then have "map (\<lambda>x. x - b) (b # bs) = map (\<lambda>x. x - b) (map (\<lambda>x. x + b) (header_scan True 0 (drop b md)))"
    using d by simp
  also have "\<dots> = header_scan True 0 (drop b md)"
    by (simp add: comp_def)
  finally show "header_starts (drop b md) = map (\<lambda>x. x - b) (b # bs)"
    by (simp add: header_starts_def)
  show "\<forall>x \<in> set (b # bs). b \<le> x \<and> x < length md"
  proof
    fix x assume x: "x \<in> set (b # bs)"
    then have "x \<in> set (header_scan True b (drop b md))" using d by simp
    then have 1: "b \<le> x" using header_scan_bounds by blast
    have "x \<in> set (header_scan True 0 md)" using x assms by (simp add: header_starts_def)
    then have "x < 0 + length md" using header_scan_bounds by blast
    then show "b \<le> x \<and> x < length md" using 1 by simp
  qed
qed

lemma py_slice_nat:
  "i \<le> length xs \<Longrightarrow> j \<le> length xs \<Longrightarrow> py_slice xs (int i) (int j) = take (j - i) (drop i xs)"
  by (simp add: py_slice_def py_index_def)

lemma sections_between_drop:
  "\<forall>x \<in> set xs. x + b \<le> length md \<Longrightarrow>
   sections_between md (map (\<lambda>x. x + b) xs) = sections_between (drop b md) xs"
proof (induction md xs rule: sections_between.induct)
  case (1 md b1 b2 bs)
  have le: "b1 + b \<le> length md" "b2 + b \<le> length md" using "1.prems" by auto
  have "py_slice md (int (b1 + b)) (int (b2 + b)) = take (b2 + b - (b1 + b)) (drop (b1 + b) md)"
    using le by (intro py_slice_nat) auto
  also have "\<dots> = take (b2 - b1) (drop b1 (drop b md))" by (simp add: add.commute)
  also have "\<dots> = py_slice (drop b md) (int b1) (int b2)"
    using le by (intro py_slice_nat[symmetric]) auto
  finally have sl: "py_slice md (int (b1 + b)) (int (b2 + b)) = py_slice (drop b md) (int b1) (int b2)" .
  have "sections_between md (map (\<lambda>x. x + b) (b2 # bs)) = sections_between (drop b md) (b2 # bs)"
    using "1.IH" "1.prems" by simp
  then show ?case using sl by (simp add: Let_def del: of_nat_add)
qed simp_all

lemma sections_between_slices:
  "s \<in> set (sections_between md xs) \<Longrightarrow>
   \<exists>i j. i \<in> set xs \<and> j \<in> set xs \<and> s = strip (py_slice md (int i) (int j))"
proof (induction md xs rule: sections_between.induct)
  case (1 md b1 b2 bs)
  from "1.prems" have "s = strip (py_slice md (int b1) (int b2)) \<or> s \<in> set (sections_between md (b2 # bs))"
    by (auto simp: Let_def split: if_splits)
  then show ?case
  proof
    assume "s = strip (py_slice md (int b1) (int b2))"
    then show ?thesis by auto
  next
    assume "s \<in> set (sections_between md (b2 # bs))"
    from "1.IH"[OF refl this] obtain i j where "i \<in> set (b2 # bs)" "j \<in> set (b2 # bs)" "s = strip (py_slice md (int i) (int j))"
      by blast
    then show ?thesis by auto
  qed
qed simp_all

text \<open>
  Claim C10. When the first heading match starts at an offset \<open>b > 0\<close>, the first
  bound is \<open>b\<close>, not 0: every section is a stripped slice \<open>md[i:j]\<close> with
  \<open>b \<le> i\<close>, and the result is the one for the document with its first \<open>b\<close>
  characters deleted (the same for \<open>chunk_markdown\<close>). The text before the first
  heading reaches no section.
\<close>

theorem chunk_by_header_drops_prefix:
  assumes "header_starts md = b # bs" and "0 < b"
  shows "chunk_by_header md = chunk_by_header (drop b md) \<and>
         chunk_markdown md = chunk_markdown (drop b md) \<and>
         (\<forall>s \<in> set (chunk_by_header md).
            \<exists>i j. b \<le> i \<and> i \<le> length md \<and> b \<le> j \<and> j \<le> length md \<and>
                  s = strip (py_slice md (int i) (int j)))"
proof -
  note hd = header_starts_drop[OF assms(1)]
  have ble: "b \<le> length md" using hd(2) by auto
  let ?ys = "header_starts (drop b md) @ [length (drop b md)]"
  have "map (\<lambda>x. x + b) ?ys = (b # bs) @ [length md]"
  proof -
    have "map (\<lambda>x. x + b) (map (\<lambda>x. x - b) (b # bs)) = map (\<lambda>x. x) (b # bs)"
      unfolding map_map using hd(2) by (intro map_cong) auto
    then show ?thesis using hd(1) ble by simp
  qed
  moreover have "\<forall>x \<in> set ?ys. x + b \<le> length md"
    using hd ble by auto
  ultimately have "sections_between md ((b # bs) @ [length md]) = sections_between (drop b md) ?ys"
    using sections_between_drop[of ?ys b md] by simp
  then have same: "chunk_by_header md = chunk_by_header (drop b md)"
    using assms(1) by (simp add: chunk_by_header_def)
  have slices: "\<forall>s \<in> set (chunk_by_header md).
      \<exists>i j. b \<le> i \<and> i \<le> length md \<and> b \<le> j \<and> j \<le> length md \<and>
            s = strip (py_slice md (int i) (int j))"
  proof
    fix s assume "s \<in> set (chunk_by_header md)"
    then have "s \<in> set (sections_between md ((b # bs) @ [length md]))"
      using assms(1) by (simp add: chunk_by_header_def)
    from sections_between_slices[OF this] obtain i j where
      ij: "i \<in> set ((b # bs) @ [length md])" "j \<in> set ((b # bs) @ [length md])"
          "s = strip (py_slice md (int i) (int j))" by blast
    have "b \<le> i \<and> i \<le> length md" "b \<le> j \<and> j \<le> length md"
      using ij(1,2) hd(2) ble by auto
    then show "\<exists>i j. b \<le> i \<and> i \<le> length md \<and> b \<le> j \<and> j \<le> length md \<and>
                    s = strip (py_slice md (int i) (int j))"
      using ij(3) by blast
  qed
  show ?thesis using same slices by (simp add: chunk_markdown_eq)
qed

theorem chunk_by_header_drops_prefix_witness:
  "header_starts ''intro\<newline># A\<newline>body'' = [6] \<and> (0::nat) < 6 \<and>
   chunk_by_header ''intro\<newline># A\<newline>body'' = chunk_by_header ''# A\<newline>body'' \<and>
   chunk_by_header ''intro\<newline># A\<newline>body'' = [''# A\<newline>body'']"
proof -
  have h: "header_starts ''intro\<newline># A\<newline>body'' = [6]" by code_simp
  have p: "(0::nat) < 6" by simp
  have "chunk_by_header ''intro\<newline># A\<newline>body'' = chunk_by_header (drop 6 ''intro\<newline># A\<newline>body'')"
    using chunk_by_header_drops_prefix[OF h p] by blast
  moreover have "drop 6 ''intro\<newline># A\<newline>body'' = ''# A\<newline>body''" by simp
  moreover have "chunk_by_header ''intro\<newline># A\<newline>body'' = [''# A\<newline>body'']" by code_simp
  ultimately show ?thesis using h p by simp
qed

section \<open>Sitemap resolution: what a call returns\<close>

lemma run_ok_refl: "run_ok w st urls0 (Inr urls0) st"
  unfolding run_ok_def by (intro exI[of _ "[]"]) simp

lemma run_ok_trans:
  assumes "run_ok w st urls0 (Inr mid) st1" and "run_ok w st1 mid r st'"
  shows "run_ok w st urls0 r st'"
proof -
  from assms(1) obtain n1 where n1: "fetched st1 = fetched st @ n1"
      "visited st1 = visited st \<union> set n1" "distinct n1" "set n1 \<inter> visited st = {}"
      "mid = urls0 @ concat (map (page_entries w) n1)"
    unfolding run_ok_def by auto
  from assms(2) obtain n2 where n2: "fetched st' = fetched st1 @ n2"
      "visited st' = visited st1 \<union> set n2" "distinct n2" "set n2 \<inter> visited st1 = {}"
      and r: "case r of Inr out \<Rightarrow> out = mid @ concat (map (page_entries w) n2)
                | Inl e \<Rightarrow> \<exists>v \<in> set n2. error_of (w v) = Some e"
    unfolding run_ok_def by auto
  have a: "fetched st' = fetched st @ (n1 @ n2)" using n1 n2 by simp
  have b: "visited st' = visited st \<union> set (n1 @ n2)" using n1 n2 by auto
  have c: "distinct (n1 @ n2)" using n1 n2 by auto
  have d: "set (n1 @ n2) \<inter> visited st = {}" using n1 n2 by auto
  have e: "case r of Inr out \<Rightarrow> out = urls0 @ concat (map (page_entries w) (n1 @ n2))
                | Inl e \<Rightarrow> \<exists>v \<in> set (n1 @ n2). error_of (w v) = Some e"
    using r n1(5) by (cases r) auto
  show ?thesis unfolding run_ok_def using a b c d e by blast
qed

lemma run_ok_mark:
  assumes "u \<notin> visited st"
  shows "run_ok w st urls0 (Inr (urls0 @ page_entries w u)) (mark_visited u st)"
  unfolding run_ok_def using assms
  by (intro exI[of _ "[u]"]) (simp add: mark_visited_def)

lemma run_ok_raised:
  assumes "u \<notin> visited st" and "error_of (w u) = Some e"
  shows "run_ok w st urls0 (Inl e) (mark_visited u st)"
  unfolding run_ok_def using assms
  by (intro exI[of _ "[u]"]) (simp add: mark_visited_def)

lemma run_ok_error:
  assumes "run_ok w st urls0 (Inl e) st'"
  shows "run_ok w st urls1 (Inl e) st'"
  using assms unfolding run_ok_def by simp

lemma resolver_post:
  "fetch_sitemap_urls n w u st = Some (r, st') \<Longrightarrow> run_ok w st [] r st'"
  "index_loop n w sms urls st = Some (r, st') \<Longrightarrow> run_ok w st urls r st'"
proof (induction n w u st and n w sms urls st arbitrary: r st' and r st'
        rule: fetch_sitemap_urls_index_loop.induct)
  case (1 w sitemap_url st)
  then show ?case by (auto split: if_splits intro: run_ok_refl)
next
  case (2 n w sitemap_url st)
  show ?case
  proof (cases "sitemap_url \<in> visited st")
    case True
    then show ?thesis using "2.prems" by (auto intro: run_ok_refl)
  next
    case nv: False
    let ?st1 = "mark_visited sitemap_url st"
    have mark: "run_ok w st [] (Inr ([] @ page_entries w sitemap_url)) ?st1"
      by (rule run_ok_mark[OF nv])
    show ?thesis
    proof (cases "w sitemap_url")
      case Failed
      then have "r = Inl FetchError" "st' = ?st1" using "2.prems" nv by (auto simp: Let_def)
      then show ?thesis
        using run_ok_raised[of sitemap_url st w FetchError, OF nv] Failed
        by (simp add: error_of_def)
    next
      case (Malformed t)
      then have "r = Inr (findall_loc t)" "st' = ?st1" using "2.prems" nv by (auto simp: Let_def)
      then show ?thesis using mark Malformed by (simp add: page_entries_def)
    next
      case Unparsable
      then have "r = Inl ParserError" "st' = ?st1" using "2.prems" nv by (auto simp: Let_def)
      then show ?thesis
        using run_ok_raised[of sitemap_url st w ParserError, OF nv] Unparsable
        by (simp add: error_of_def)
    next
      case (Document root)
      show ?thesis
      proof (cases "root_kind root = ''sitemapindex''")
        case True
        then have run: "index_loop n w (findall_any_ns ''sitemap'' root) [] ?st1 = Some (r, st')"
          using "2.prems" nv Document by (simp add: Let_def)
        have "run_ok w ?st1 [] r st'"
          using "2.IH"[OF nv refl Document True run] .
        moreover have "run_ok w st [] (Inr []) ?st1"
          using mark Document True by (simp add: page_entries_def)
        ultimately show ?thesis by (rule run_ok_trans[rotated])
      next
        case False
        then have "r = Inr (page_entries w sitemap_url)" "st' = ?st1"
          using "2.prems" nv Document by (auto simp: Let_def page_entries_def split: if_splits)
        then show ?thesis using mark by simp
      qed
    qed
  qed
next
  case (3 n w urls st)
  then show ?case by (auto intro: run_ok_refl)
next
  case (4 n w sm sms urls st)
  show ?case
  proof (cases "loc_url sm")
    case None
    then have "index_loop n w sms urls st = Some (r, st')" using "4.prems" by simp
    from "4.IH"(1)[OF None this] show ?thesis .
  next
    case (Some child)
    from "4.prems" Some obtain r1 st1 where f: "fetch_sitemap_urls n w child st = Some (r1, st1)"
      by (auto split: option.splits)
    have ok1: "run_ok w st [] r1 st1" by (rule "4.IH"(2)[OF Some f])
    show ?thesis
    proof (cases r1)
      case (Inl e)
      then have "r = Inl e" "st' = st1" using "4.prems" Some f by auto
      then show ?thesis using ok1 Inl run_ok_error by blast
    next
      case (Inr us)
      then have run: "index_loop n w sms (urls @ us) st1 = Some (r, st')"
        using "4.prems" Some f by simp
      have ok2: "run_ok w st1 (urls @ us) r st'"
        using "4.IH"(3)[OF Some f _ _ run] Inr by simp
      have "run_ok w st urls (Inr (urls @ us)) st1"
        using ok1 Inr unfolding run_ok_def by simp
      then show ?thesis using ok2 by (rule run_ok_trans)
    qed
  qed
qed


lemma set_map_filter_Some: "f x = Some y \<Longrightarrow> x \<in> set xs \<Longrightarrow> y \<in> set (List.map_filter f xs)"
  by (force simp: List.map_filter_def)

lemma run_ok_visited_mono: "run_ok w st urls0 r st' \<Longrightarrow> visited st \<subseteq> visited st'"
  unfolding run_ok_def by auto

lemma card_unvisited_mark:
  assumes "finite U" "u \<in> U" "u \<notin> visited st" "card (U - visited st) \<le> Suc n"
  shows "card (U - visited (mark_visited u st)) \<le> n"
proof -
  have "U - visited (mark_visited u st) = (U - visited st) - {u}"
    by (auto simp: mark_visited_def)
  moreover have "u \<in> U - visited st" using assms by simp
  moreover have "finite (U - visited st)" using assms by simp
  ultimately have "card (U - visited (mark_visited u st)) = card (U - visited st) - 1"
    by (simp add: card_Diff_singleton)
  then show ?thesis using assms(4) by simp
qed

lemma resolver_total:
  "finite U \<Longrightarrow> \<forall>v \<in> U. set (sitemap_children w v) \<subseteq> U \<Longrightarrow> u \<in> U \<Longrightarrow>
     card (U - visited st) \<le> n \<Longrightarrow> \<exists>r st'. fetch_sitemap_urls n w u st = Some (r, st')"
  "finite U \<Longrightarrow> \<forall>v \<in> U. set (sitemap_children w v) \<subseteq> U \<Longrightarrow>
     \<forall>sm \<in> set sms. \<forall>c. loc_url sm = Some c \<longrightarrow> c \<in> U \<Longrightarrow>
     card (U - visited st) \<le> n \<Longrightarrow> \<exists>r st'. index_loop n w sms urls st = Some (r, st')"
proof (induction n w u st and n w sms urls st
        rule: fetch_sitemap_urls_index_loop.induct)
  case (1 w sitemap_url st)
  then have "U - visited st = {}" by simp
  then have "sitemap_url \<in> visited st" using "1.prems"(3) by auto
  then show ?case by simp
next
  case (2 n w sitemap_url st)
  show ?case
  proof (cases "sitemap_url \<in> visited st")
    case True
    then show ?thesis by simp
  next
    case nv: False
    let ?st1 = "mark_visited sitemap_url st"
    have c1: "card (U - visited ?st1) \<le> n"
      using card_unvisited_mark[OF "2.prems"(1) "2.prems"(3) nv "2.prems"(4)] .
    show ?thesis
    proof (cases "w sitemap_url")
      case Failed
      then show ?thesis using nv by (simp add: Let_def)
    next
      case (Malformed t)
      then show ?thesis using nv by (simp add: Let_def)
    next
      case Unparsable
      then show ?thesis using nv by (simp add: Let_def)
    next
      case (Document root)
      show ?thesis
      proof (cases "root_kind root = ''sitemapindex''")
        case True
        have ch: "sitemap_children w sitemap_url = List.map_filter loc_url (findall_any_ns ''sitemap'' root)"
          using Document True by (simp add: sitemap_children_def)
        have "\<forall>sm \<in> set (findall_any_ns ''sitemap'' root). \<forall>c. loc_url sm = Some c \<longrightarrow> c \<in> U"
        proof (intro ballI allI impI)
          fix sm c assume "sm \<in> set (findall_any_ns ''sitemap'' root)" "loc_url sm = Some c"
          then have "c \<in> set (sitemap_children w sitemap_url)"
            unfolding ch by (intro set_map_filter_Some)
          then show "c \<in> U" using "2.prems"(2,3) by blast
        qed
        from "2.IH"[OF nv refl Document True "2.prems"(1) "2.prems"(2) this c1]
        show ?thesis using nv Document True by (simp add: Let_def)
      next
        case False
        then show ?thesis using nv Document by (simp add: Let_def)
      qed
    qed
  qed
next
  case (3 n w urls st)
  then show ?case by simp
next
  case (4 n w sm sms urls st)
  have rest: "\<forall>sm \<in> set sms. \<forall>c. loc_url sm = Some c \<longrightarrow> c \<in> U"
    using "4.prems"(3) by simp
  show ?case
  proof (cases "loc_url sm")
    case None
    from "4.IH"(1)[OF None "4.prems"(1) "4.prems"(2) rest "4.prems"(4)]
    show ?thesis using None by simp
  next
    case (Some child)
    then have "child \<in> U" using "4.prems"(3) by simp
    from "4.IH"(2)[OF Some "4.prems"(1) "4.prems"(2) this "4.prems"(4)]
    obtain r1 st1 where f: "fetch_sitemap_urls n w child st = Some (r1, st1)" by blast
    show ?thesis
    proof (cases r1)
      case (Inl e)
      then show ?thesis using Some f by simp
    next
      case (Inr us)
      have "visited st \<subseteq> visited st1"
        using resolver_post(1)[OF f] by (rule run_ok_visited_mono)
      then have "U - visited st1 \<subseteq> U - visited st" by auto
      then have "card (U - visited st1) \<le> card (U - visited st)"
        using "4.prems"(1) by (intro card_mono) auto
      then have c1: "card (U - visited st1) \<le> n" using "4.prems"(4) by simp
      from "4.IH"(3)[OF Some f _ _ "4.prems"(1) "4.prems"(2) rest c1, of "Inr us" us] Inr
      show ?thesis using Some f by simp
    qed
  qed
qed


text \<open>
  Claim C5. On a finite sitemap graph (a finite set \<open>U\<close> of URLs that holds the start
  and, with every sitemap index in it, the sitemaps the index names; cycles allowed) a
  resolution run returns, with a depth bound of \<open>card U\<close> or more, a result or the
  error of a failed request; no URL is requested twice in the run; and a call on a
  visited URL returns the empty list at once, the state and the trace of requests
  unchanged.
\<close>

theorem fetch_sitemap_urls_terminates:
  assumes "finite U" and "url \<in> U" and "\<forall>v \<in> U. set (sitemap_children w v) \<subseteq> U"
    and "card U \<le> fuel"
  shows "(\<exists>r st'. fetch_sitemap_urls_default fuel w url = Some (r, st') \<and> distinct (fetched st')) \<and>
         (\<forall>n v st. v \<in> visited st \<longrightarrow> fetch_sitemap_urls n w v st = Some (Inr [], st))"
proof
  let ?st0 = "\<lparr>visited = {}, fetched = []\<rparr>"
  have "card (U - visited ?st0) \<le> fuel" using assms(4) by simp
  from resolver_total(1)[OF assms(1) assms(3) assms(2) this]
  obtain r st' where f: "fetch_sitemap_urls fuel w url ?st0 = Some (r, st')" by blast
  from resolver_post(1)[OF f] have "distinct (fetched st')"
    unfolding run_ok_def by auto
  then show "\<exists>r st'. fetch_sitemap_urls_default fuel w url = Some (r, st') \<and> distinct (fetched st')"
    using f by (simp add: fetch_sitemap_urls_default_def)
  show "\<forall>n v st. v \<in> visited st \<longrightarrow> fetch_sitemap_urls n w v st = Some (Inr [], st)"
  proof (intro allI impI)
    fix n v and st :: resolver_state
    assume "v \<in> visited st"
    then show "fetch_sitemap_urls n w v st = Some (Inr [], st)" by (cases n) simp_all
  qed
qed

theorem fetch_sitemap_urls_terminates_witness:
  "finite {''/index'', ''/a'', ''/b''} \<and> ''/index'' \<in> {''/index'', ''/a'', ''/b''} \<and>
   set (sitemap_children cyclic_web ''/index'') \<subseteq> {''/index'', ''/a'', ''/b''} \<and>
   set (sitemap_children cyclic_web ''/a'') \<subseteq> {''/index'', ''/a'', ''/b''} \<and>
   set (sitemap_children cyclic_web ''/b'') \<subseteq> {''/index'', ''/a'', ''/b''} \<and>
   card {''/index'', ''/a'', ''/b''} \<le> 3 \<and>
   fetch_sitemap_urls_default 3 cyclic_web ''/index'' =
     Some (Inr [''/p1'', ''/p2''],
           \<lparr>visited = {''/index'', ''/a'', ''/b''}, fetched = [''/index'', ''/a'', ''/b'']\<rparr>) \<and>
   fetch_sitemap_urls 0 cyclic_web ''/a'' \<lparr>visited = {''/a''}, fetched = [''/a'']\<rparr> =
     Some (Inr [], \<lparr>visited = {''/a''}, fetched = [''/a'']\<rparr>)"
proof -
  let ?U = "{''/index'', ''/a'', ''/b''}"
  have c1: "set (sitemap_children cyclic_web ''/index'') \<subseteq> ?U" by code_simp
  have c2: "set (sitemap_children cyclic_web ''/a'') \<subseteq> ?U" by code_simp
  have c3: "set (sitemap_children cyclic_web ''/b'') \<subseteq> ?U" by code_simp
  have cl: "\<forall>v \<in> ?U. set (sitemap_children cyclic_web v) \<subseteq> ?U"
    using c1 c2 c3 by blast
  have fin: "finite ?U" by simp
  have mem: "''/index'' \<in> ?U" by simp
  have cd: "card ?U \<le> 3" by simp
  have run: "fetch_sitemap_urls_default 3 cyclic_web ''/index'' =
     Some (Inr [''/p1'', ''/p2''],
           \<lparr>visited = {''/index'', ''/a'', ''/b''}, fetched = [''/index'', ''/a'', ''/b'']\<rparr>)"
    by code_simp
  have again: "fetch_sitemap_urls 0 cyclic_web ''/a'' \<lparr>visited = {''/a''}, fetched = [''/a'']\<rparr> =
     Some (Inr [], \<lparr>visited = {''/a''}, fetched = [''/a'']\<rparr>)"
    using fetch_sitemap_urls_terminates[OF fin mem cl cd] by simp
  show ?thesis
    using c1 c2 c3 fin mem cd run again by blast
qed

section \<open>Sitemap resolution: the regex fallback and errors\<close>






















section \<open>Sitemap resolution: the result is flat, not deduplicated\<close>

text \<open>
  Claim C4 as stated fails: a URL set that lists a page twice gives that page twice.
\<close>

theorem fetch_sitemap_urls_keeps_duplicates:
  "map_option fst (fetch_sitemap_urls_default 1 dup_web ''/sitemap.xml'') =
     Some (Inr [''https://a/x'', ''https://a/x'']) \<and>
   \<not> distinct [''https://a/x'', ''https://a/x'']"
  by code_simp

text \<open>
  Claim C4, amended. A returned resolution is a flat list: the page entries of the
  sitemap documents requested in the run, concatenated in the order of the requests;
  every sitemap URL is requested once, and the visited set is the set of requested
  URLs. Page URLs are kept as they are listed.
\<close>

theorem fetch_sitemap_urls_flat_list:
  assumes "fetch_sitemap_urls_default fuel w url = Some (Inr urls, st')"
  shows "urls = concat (map (page_entries w) (fetched st')) \<and> distinct (fetched st') \<and>
         visited st' = set (fetched st')"
proof -
  from assms have "run_ok w \<lparr>visited = {}, fetched = []\<rparr> [] (Inr urls) st'"
    unfolding fetch_sitemap_urls_default_def by (rule resolver_post(1))
  then show ?thesis unfolding run_ok_def by auto
qed

theorem fetch_sitemap_urls_flat_list_witness:
  "fetch_sitemap_urls_default 1 dup_web ''/sitemap.xml'' =
     Some (Inr [''https://a/x'', ''https://a/x''],
           \<lparr>visited = {''/sitemap.xml''}, fetched = [''/sitemap.xml'']\<rparr>) \<and>
   [''https://a/x'', ''https://a/x''] =
     concat (map (page_entries dup_web)
                 (fetched \<lparr>visited = {''/sitemap.xml''}, fetched = [''/sitemap.xml'']\<rparr>))"
proof -
  have r: "fetch_sitemap_urls_default 1 dup_web ''/sitemap.xml'' =
     Some (Inr [''https://a/x'', ''https://a/x''],
           \<lparr>visited = {''/sitemap.xml''}, fetched = [''/sitemap.xml'']\<rparr>)"
    by code_simp
  from fetch_sitemap_urls_flat_list[OF r] show ?thesis using r by blast
qed

end
